theory Spec2Isabelle
  imports Main
begin

section \<open>Errors and generators\<close>

text \<open>
  The exceptions that the functions of \<^verbatim>\<open>chartjs/util.py\<close> and the library
  calls they make can raise. \<open>LookupFailure\<close> stands for whatever exception the
  injected queryset raises; its argument identifies the exception.
\<close>

datatype error =
    ValueError
  | OverflowError
  | KeyError string
  | LookupFailure string

text \<open>
  A generator that is consumed to its end is modelled by its trace: the values
  it yielded, in order, and how it stopped (\<open>None\<close>: it returned; \<open>Some e\<close>:
  it raised \<open>e\<close> after the values listed).
\<close>

type_synonym 'a gen = "'a list \<times> error option"

section \<open>Calendar dates: the part of \<^verbatim>\<open>datetime\<close> that the code uses\<close>

text \<open>
  A \<^verbatim>\<open>datetime.date\<close> object has the three fields year, month and day. The
  functions below follow \<^verbatim>\<open>Lib/datetime.py\<close> of CPython 3.11, function by
  function, with the same names where a leading underscore is dropped.
\<close>

datatype date = Date (year: int) (month: int) (day: int)

definition MINYEAR :: int where "MINYEAR = 1"
definition MAXYEAR :: int where "MAXYEAR = 9999"
definition MAXORDINAL :: int where "MAXORDINAL = 3652059"

definition DAYS_IN_MONTH :: "int list" where
  "DAYS_IN_MONTH = [-1, 31, 28, 31, 30, 31, 30, 31, 31, 30, 31, 30, 31]"

text \<open>The module builds \<^verbatim>\<open>_DAYS_BEFORE_MONTH\<close> by a loop over the table above.\<close>

fun dbm_loop :: "int \<Rightarrow> int list \<Rightarrow> int list" where
  "dbm_loop dbm [] = []"
| "dbm_loop dbm (dim # rest) = dbm # dbm_loop (dbm + dim) rest"

definition DAYS_BEFORE_MONTH :: "int list" where
  "DAYS_BEFORE_MONTH = -1 # dbm_loop 0 (tl DAYS_IN_MONTH)"

definition is_leap :: "int \<Rightarrow> bool" where
  "is_leap y \<longleftrightarrow> y mod 4 = 0 \<and> (y mod 100 \<noteq> 0 \<or> y mod 400 = 0)"

definition days_before_year :: "int \<Rightarrow> int" where
  "days_before_year yr = (let y = yr - 1 in y * 365 + y div 4 - y div 100 + y div 400)"

definition days_in_month :: "int \<Rightarrow> int \<Rightarrow> int" where
  "days_in_month y m = (if m = 2 \<and> is_leap y then 29 else DAYS_IN_MONTH ! nat m)"

definition days_before_month :: "int \<Rightarrow> int \<Rightarrow> int" where
  "days_before_month y m =
     DAYS_BEFORE_MONTH ! nat m + (if m > 2 \<and> is_leap y then 1 else 0)"

definition ymd2ord :: "int \<Rightarrow> int \<Rightarrow> int \<Rightarrow> int" where
  "ymd2ord y m d = days_before_year y + days_before_month y m + d"

definition DI400Y :: int where "DI400Y = days_before_year 401"
definition DI100Y :: int where "DI100Y = days_before_year 101"
definition DI4Y :: int where "DI4Y = days_before_year 5"

text \<open>
  \<^verbatim>\<open>_ord2ymd\<close>. Python's \<^verbatim>\<open>divmod\<close> on integers rounds towards minus
  infinity, as \<open>div\<close> and \<open>mod\<close> on \<open>int\<close> do; \<^verbatim>\<open>(n + 50) >> 5\<close> is
  \<open>drop_bit 5\<close>.
\<close>

definition ord2ymd :: "int \<Rightarrow> int \<times> int \<times> int" where
  "ord2ymd n0 =
    (let n = n0 - 1;
         n400 = n div DI400Y; n = n mod DI400Y;
         yr = n400 * 400 + 1;
         n100 = n div DI100Y; n = n mod DI100Y;
         n4 = n div DI4Y; n = n mod DI4Y;
         n1 = n div 365; n = n mod 365;
         yr = yr + (n100 * 100 + n4 * 4 + n1)
     in if n1 = 4 \<or> n100 = 4 then (yr - 1, 12, 31)
        else
          let leapyear = (n1 = 3 \<and> (n4 \<noteq> 24 \<or> n100 = 3));
              mth = drop_bit 5 (n + 50);
              preceding = DAYS_BEFORE_MONTH ! nat mth
                            + (if mth > 2 \<and> leapyear then 1 else 0)
          in if preceding > n
             then
               let mth = mth - 1;
                   preceding = preceding -
                     (DAYS_IN_MONTH ! nat mth + (if mth = 2 \<and> leapyear then 1 else 0))
               in (yr, mth, n - preceding + 1)
             else (yr, mth, n - preceding + 1))"

text \<open>
  \<^verbatim>\<open>_check_date_fields\<close>, which the constructor of \<^verbatim>\<open>date\<close> runs: a date
  object exists only for a day of the proleptic Gregorian calendar in the years 1 to
  9999.
\<close>

definition check_date_fields :: "int \<Rightarrow> int \<Rightarrow> int \<Rightarrow> bool" where
  "check_date_fields y m d \<longleftrightarrow>
     MINYEAR \<le> y \<and> y \<le> MAXYEAR \<and> 1 \<le> m \<and> m \<le> 12 \<and> 1 \<le> d \<and> d \<le> days_in_month y m"

definition date_new :: "int \<Rightarrow> int \<Rightarrow> int \<Rightarrow> error + date" where
  "date_new y m d = (if check_date_fields y m d then Inr (Date y m d) else Inl ValueError)"

text \<open>The objects that the constructor can have built.\<close>

definition valid_date :: "date \<Rightarrow> bool" where
  "valid_date dt \<longleftrightarrow> check_date_fields (year dt) (month dt) (day dt)"

definition toordinal :: "date \<Rightarrow> int" where
  "toordinal dt = ymd2ord (year dt) (month dt) (day dt)"

definition fromordinal :: "int \<Rightarrow> error + date" where
  "fromordinal n = (case ord2ymd n of (y, m, d) \<Rightarrow> date_new y m d)"

text \<open>
  A \<^verbatim>\<open>timedelta\<close> is used through its \<^verbatim>\<open>days\<close> field only; the constructor
  refuses more than 999999999 days in either direction.
\<close>

type_synonym timedelta = int

definition timedelta :: "int \<Rightarrow> error + timedelta" where
  "timedelta n = (if - 999999999 \<le> n \<and> n \<le> 999999999 then Inr n else Inl OverflowError)"

text \<open>\<^verbatim>\<open>date.__add__\<close> with a timedelta, and \<^verbatim>\<open>date.__sub__\<close> with a date.\<close>

definition date_add :: "date \<Rightarrow> timedelta \<Rightarrow> error + date" where
  "date_add dt td =
     (let o' = toordinal dt + td
      in if 0 < o' \<and> o' \<le> MAXORDINAL then fromordinal o' else Inl OverflowError)"

definition date_sub :: "date \<Rightarrow> date \<Rightarrow> error + timedelta" where
  "date_sub d1 d2 = timedelta (toordinal d1 - toordinal d2)"

text \<open>Dates compare as the tuples (year, month, day) do.\<close>

definition date_lt :: "date \<Rightarrow> date \<Rightarrow> bool" where
  "date_lt a b \<longleftrightarrow>
     year a < year b \<or> (year a = year b \<and>
       (month a < month b \<or> (month a = month b \<and> day a < day b)))"

definition date_le :: "date \<Rightarrow> date \<Rightarrow> bool" where
  "date_le a b \<longleftrightarrow> a = b \<or> date_lt a b"

text \<open>
  Two names used in the proofs only: the last part of \<open>ord2ymd\<close> (the month estimate
  and its correction), and the length of a year.
\<close>

definition find_month :: "int \<Rightarrow> bool \<Rightarrow> int \<Rightarrow> int \<times> int \<times> int" where
  "find_month yr leapyear n =
     (let mth = drop_bit 5 (n + 50);
          preceding = DAYS_BEFORE_MONTH ! nat mth + (if mth > 2 \<and> leapyear then 1 else 0)
      in if preceding > n
         then
           let mth = mth - 1;
               preceding = preceding -
                 (DAYS_IN_MONTH ! nat mth + (if mth = 2 \<and> leapyear then 1 else 0))
           in (yr, mth, n - preceding + 1)
         else (yr, mth, n - preceding + 1))"

definition days_in_year :: "int \<Rightarrow> int" where
  "days_in_year y = (if is_leap y then 366 else 365)"

section \<open>Parsing: \<^verbatim>\<open>datetime.datetime.strptime(datestr, "%Y-%m-%d")\<close>\<close>

text \<open>
  A Python string is modelled as a \<open>string\<close>: the characters below code point 256.
  Among these the decimal digits (what \<^verbatim>\<open>\d\<close> matches) are \<open>0\<close> to \<open>9\<close>.
\<close>

definition in_range :: "char \<Rightarrow> char \<Rightarrow> char \<Rightarrow> bool" where
  "in_range lo hi c \<longleftrightarrow> (of_char lo :: nat) \<le> of_char c \<and> (of_char c :: nat) \<le> of_char hi"

definition is_digit :: "char \<Rightarrow> bool" where
  "is_digit c = in_range (CHR ''0'') (CHR ''9'') c"

text \<open>
  \<^verbatim>\<open>_strptime\<close> turns the format into the regular expression
  \<^verbatim>\<open>(?P<Y>\d\d\d\d)-(?P<m>1[0-2]|0[1-9]|[1-9])-(?P<d>3[0-1]|[1-2]\d|0[1-9]|[1-9]| [1-9])\<close>
  and matches it at the start of the string. A regular expression without repetition
  is modelled by the list of its matches at the start of a string, in the order in
  which a backtracking matcher tries them, each with the text it consumed and the
  text that remains.
\<close>

type_synonym regex = "string \<Rightarrow> (string \<times> string) list"

fun cls :: "(char \<Rightarrow> bool) \<Rightarrow> regex" where
  "cls P [] = []"
| "cls P (c # cs) = (if P c then [([c], cs)] else [])"

definition lit :: "char \<Rightarrow> regex" where
  "lit c = cls (\<lambda>x. x = c)"

definition seq :: "regex \<Rightarrow> regex \<Rightarrow> regex" where
  "seq p q s = concat (map (\<lambda>(a, r). map (\<lambda>(b, r'). (a @ b, r')) (q r)) (p s))"

definition alt :: "regex \<Rightarrow> regex \<Rightarrow> regex" where
  "alt p q s = p s @ q s"

definition re_Y :: regex where
  "re_Y = seq (cls is_digit) (seq (cls is_digit) (seq (cls is_digit) (cls is_digit)))"

definition re_m :: regex where
  "re_m = alt (seq (lit (CHR ''1'')) (cls (in_range (CHR ''0'') (CHR ''2''))))
         (alt (seq (lit (CHR ''0'')) (cls (in_range (CHR ''1'') (CHR ''9''))))
              (cls (in_range (CHR ''1'') (CHR ''9''))))"

definition re_d :: regex where
  "re_d = alt (seq (lit (CHR ''3'')) (cls (in_range (CHR ''0'') (CHR ''1''))))
         (alt (seq (cls (in_range (CHR ''1'') (CHR ''2''))) (cls is_digit))
         (alt (seq (lit (CHR ''0'')) (cls (in_range (CHR ''1'') (CHR ''9''))))
         (alt (cls (in_range (CHR ''1'') (CHR ''9'')))
              (seq (lit (CHR '' '')) (cls (in_range (CHR ''1'') (CHR ''9'')))))))"

text \<open>All matches of the whole expression: the three groups and the unconverted rest.\<close>

definition format_regex :: "string \<Rightarrow> ((string \<times> string \<times> string) \<times> string) list" where
  "format_regex s =
     concat (map (\<lambda>(Y, r1).
       concat (map (\<lambda>(_, r2).
         concat (map (\<lambda>(m, r3).
           concat (map (\<lambda>(_, r4).
             map (\<lambda>(d, r5). ((Y, m, d), r5)) (re_d r4))
           (lit (CHR ''-'') r3)))
         (re_m r2)))
       (lit (CHR ''-'') r1)))
     (re_Y s))"

text \<open>\<^verbatim>\<open>format_regex.match(data_string)\<close>: the first match, if there is one.\<close>

definition re_match :: "string \<Rightarrow> ((string \<times> string \<times> string) \<times> string) option" where
  "re_match s = (case format_regex s of [] \<Rightarrow> None | x # _ \<Rightarrow> Some x)"

text \<open>
  \<^verbatim>\<open>int(text)\<close> on the text of a group: blanks around the number are dropped and the
  digits are read in base ten. (The groups of this format hold one to four digits, the
  day possibly after one blank; signs and underscores, which \<^verbatim>\<open>int\<close> also reads,
  cannot occur in them and are refused here.)
\<close>

definition digit_val :: "char \<Rightarrow> int" where
  "digit_val c = int (of_char c) - 48"

definition strip :: "string \<Rightarrow> string" where
  "strip s = rev (dropWhile (\<lambda>c. c = CHR '' '') (rev (dropWhile (\<lambda>c. c = CHR '' '') s)))"

definition py_int :: "string \<Rightarrow> error + int" where
  "py_int s =
     (let t = strip s
      in if t \<noteq> [] \<and> list_all is_digit t
         then Inr (foldl (\<lambda>acc c. 10 * acc + digit_val c) 0 t)
         else Inl ValueError)"

text \<open>
  \<^verbatim>\<open>_strptime\<close> for this format: no match, or text left over after the match, is a
  \<^verbatim>\<open>ValueError\<close>; so is a year, month and day that the constructor of
  \<^verbatim>\<open>date\<close> refuses. The \<^verbatim>\<open>datetime\<close> that \<^verbatim>\<open>strptime\<close> builds has
  these three fields and midnight as its time; \<^verbatim>\<open>.date()\<close> keeps the three fields.
\<close>

definition strptime :: "string \<Rightarrow> error + date" where
  "strptime data_string =
     (case re_match data_string of
        None \<Rightarrow> Inl ValueError
      | Some ((Y, m, d), rest) \<Rightarrow>
          if rest \<noteq> [] then Inl ValueError
          else
            (case py_int Y of Inl e \<Rightarrow> Inl e | Inr yr \<Rightarrow>
            (case py_int m of Inl e \<Rightarrow> Inl e | Inr mth \<Rightarrow>
            (case py_int d of Inl e \<Rightarrow> Inl e | Inr dy \<Rightarrow>
               date_new yr mth dy))))"

section \<open>\<^verbatim>\<open>chartjs/util.py\<close>\<close>

definition str_to_datetime_date :: "string \<Rightarrow> error + date" where
  "str_to_datetime_date datestr = strptime datestr"

text \<open>
  An argument that is either a string or a date object. \<open>to_date\<close> is the idiom
  \<^verbatim>\<open>if type(x) == str: x = str_to_datetime_date(x)\<close> that both generators open with.
\<close>

datatype datespec = StrSpec string | DateSpec date

definition to_date :: "datespec \<Rightarrow> error + date" where
  "to_date x = (case x of StrSpec s \<Rightarrow> str_to_datetime_date s | DateSpec d \<Rightarrow> Inr d)"

text \<open>A date object handed in by the caller is one that the constructor has built.\<close>

definition valid_spec :: "datespec \<Rightarrow> bool" where
  "valid_spec x = (case x of StrSpec s \<Rightarrow> True | DateSpec d \<Rightarrow> valid_date d)"

text \<open>\<^verbatim>\<open>range(n)\<close>: the integers from 0 up to \<open>n - 1\<close>, none when \<open>n \<le> 0\<close>.\<close>

definition py_range :: "int \<Rightarrow> int list" where
  "py_range n = [0..n - 1]"

text \<open>The loop of \<open>date_range\<close>: one date is yielded for each element of the range.\<close>

fun date_range_loop :: "date \<Rightarrow> int list \<Rightarrow> date gen" where
  "date_range_loop start_date [] = ([], None)"
| "date_range_loop start_date (days # rest) =
     (case timedelta days of
        Inl e \<Rightarrow> ([], Some e)
      | Inr td \<Rightarrow>
          (case date_add start_date td of
             Inl e \<Rightarrow> ([], Some e)
           | Inr d \<Rightarrow>
               (case date_range_loop start_date rest of (ys, t) \<Rightarrow> (d # ys, t))))"

definition date_range :: "datespec \<Rightarrow> datespec \<Rightarrow> bool \<Rightarrow> date gen" where
  "date_range start_date end_date inclusive =
     (case to_date start_date of
        Inl e \<Rightarrow> ([], Some e)
      | Inr start_date \<Rightarrow>
     (case to_date end_date of
        Inl e \<Rightarrow> ([], Some e)
      | Inr end_date \<Rightarrow>
     (case date_sub end_date start_date of
        Inl e \<Rightarrow> ([], Some e)
      | Inr delta \<Rightarrow>
          let number_of_days = delta;
              number_of_days = (if inclusive then number_of_days + 1 else number_of_days)
          in date_range_loop start_date (py_range number_of_days))))"

text \<open>
  What \<open>value_or_null\<close> yields: the value of an attribute of a record, or the string
  \<^verbatim>\<open>"null"\<close>. The type \<open>'n\<close> is the type of the numbers stored in the records.
\<close>

datatype 'n pyval = Num 'n | Str string | NoneVal

text \<open>
  A record is seen through \<^verbatim>\<open>vars(obj)\<close>, a dictionary from attribute names to
  values. The queryset is seen through \<^verbatim>\<open>queryset.filter(**query)\<close> followed by
  \<^verbatim>\<open>count()\<close> and \<^verbatim>\<open>first()\<close>: from the keyword arguments to the matching
  records, or to the exception that one of these calls raises.
\<close>

type_synonym 'n item = "string \<rightharpoonup> 'n pyval"
type_synonym 'n queryset = "(string \<rightharpoonup> int) \<Rightarrow> error + 'n item list"

definition NULL :: "'n pyval" where
  "NULL = Str ''null''"

definition build_query :: "string \<Rightarrow> date \<Rightarrow> (string \<rightharpoonup> int)" where
  "build_query date_attr new_date =
     [date_attr @ ''__year'' \<mapsto> year new_date,
      date_attr @ ''__month'' \<mapsto> month new_date,
      date_attr @ ''__day'' \<mapsto> day new_date]"

text \<open>The body of the loop of \<open>value_or_null\<close>, for one date.\<close>

definition value_or_null_body ::
  "'n queryset \<Rightarrow> string \<Rightarrow> string \<Rightarrow> date \<Rightarrow> error + 'n pyval" where
  "value_or_null_body queryset date_attr value_attr new_date =
     (let query = build_query date_attr new_date
      in case queryset query of
           Inl e \<Rightarrow> Inl e
         | Inr items \<Rightarrow>
             if length items = 1
             then (case (hd items) value_attr of
                     None \<Rightarrow> Inl (KeyError value_attr)
                   | Some v \<Rightarrow> Inr v)
             else Inr NULL)"

text \<open>
  The loop over the dates that \<open>date_range\<close> yields; \<open>t\<close> is how \<open>date_range\<close>
  stopped after the last of them.
\<close>

fun value_or_null_loop ::
  "'n queryset \<Rightarrow> string \<Rightarrow> string \<Rightarrow> date list \<Rightarrow> error option \<Rightarrow> 'n pyval gen" where
  "value_or_null_loop queryset date_attr value_attr [] t = ([], t)"
| "value_or_null_loop queryset date_attr value_attr (new_date # rest) t =
     (case value_or_null_body queryset date_attr value_attr new_date of
        Inl e \<Rightarrow> ([], Some e)
      | Inr v \<Rightarrow>
          (case value_or_null_loop queryset date_attr value_attr rest t of
             (ys, t') \<Rightarrow> (v # ys, t')))"

definition value_or_null ::
  "datespec \<Rightarrow> datespec \<Rightarrow> 'n queryset \<Rightarrow> string \<Rightarrow> string \<Rightarrow> 'n pyval gen" where
  "value_or_null start_date end_date queryset date_attr value_attr =
     (case to_date start_date of
        Inl e \<Rightarrow> ([], Some e)
      | Inr start_date \<Rightarrow>
     (case to_date end_date of
        Inl e \<Rightarrow> ([], Some e)
      | Inr end_date \<Rightarrow>
     (case date_range (DateSpec start_date) (DateSpec end_date) True of
        (dates, t) \<Rightarrow> value_or_null_loop queryset date_attr value_attr dates t)))"

section \<open>How a date may be written\<close>



text \<open>
  The texts that the month and the day groups of the regular expression stand for: a
  month is written \<open>1\<close> to \<open>9\<close>, \<open>01\<close> to \<open>09\<close> or \<open>10\<close> to \<open>12\<close>; a day is
  written \<open>1\<close> to \<open>9\<close>, \<open>01\<close> to \<open>09\<close>, \<open>10\<close> to \<open>31\<close>, or a blank followed
  by \<open>1\<close> to \<open>9\<close>.
\<close>

definition month_text :: "string \<Rightarrow> bool" where
  "month_text m \<longleftrightarrow>
     (case m of
        [a] \<Rightarrow> in_range (CHR ''1'') (CHR ''9'') a
      | [a, b] \<Rightarrow> (a = CHR ''1'' \<and> in_range (CHR ''0'') (CHR ''2'') b)
                  \<or> (a = CHR ''0'' \<and> in_range (CHR ''1'') (CHR ''9'') b)
      | _ \<Rightarrow> False)"


definition day_text :: "string \<Rightarrow> bool" where
  "day_text d \<longleftrightarrow>
     (case d of
        [a] \<Rightarrow> in_range (CHR ''1'') (CHR ''9'') a
      | [a, b] \<Rightarrow> (a = CHR ''3'' \<and> in_range (CHR ''0'') (CHR ''1'') b)
                  \<or> (in_range (CHR ''1'') (CHR ''2'') a \<and> is_digit b)
                  \<or> (a = CHR ''0'' \<and> in_range (CHR ''1'') (CHR ''9'') b)
                  \<or> (a = CHR '' '' \<and> in_range (CHR ''1'') (CHR ''9'') b)
      | _ \<Rightarrow> False)"

text \<open>The number that a text of digits, possibly after a blank, stands for.\<close>

definition decimal :: "string \<Rightarrow> int" where
  "decimal s = foldl (\<lambda>acc c. 10 * acc + digit_val c) 0 (strip s)"


text \<open>
  A text denotes a date when it is a year of four digits, a hyphen, a month, a hyphen
  and a day as above, and the three numbers are a date of the calendar.
\<close>

definition denotes :: "string \<Rightarrow> date \<Rightarrow> bool" where
  "denotes s dt \<longleftrightarrow>
     (\<exists>Y m d. s = Y @ ''-'' @ m @ ''-'' @ d
        \<and> length Y = 4 \<and> list_all is_digit Y \<and> month_text m \<and> day_text d
        \<and> dt = Date (decimal Y) (decimal m) (decimal d) \<and> valid_date dt)"

section \<open>Facts about the calendar\<close>

lemma DAYS_BEFORE_MONTH_eq:
  "DAYS_BEFORE_MONTH = [-1, 0, 31, 59, 90, 120, 151, 181, 212, 243, 273, 304, 334]"
  by (simp add: DAYS_BEFORE_MONTH_def DAYS_IN_MONTH_def)

lemma DI_values: "DI400Y = 146097" "DI100Y = 36524" "DI4Y = 1461"
  by (simp_all add: DI400Y_def DI100Y_def DI4Y_def days_before_year_def)

lemma div_decomp:
  fixes q r k :: int
  assumes "0 \<le> r" "r < k"
  shows "(k * q + r) div k = q" "(k * q + r) mod k = r"
  using assms by (simp_all add: div_pos_pos_trivial)

lemma mod_eq_0_range:
  fixes x k :: int
  assumes "1 \<le> x" "x \<le> k"
  shows "x mod k = 0 \<longleftrightarrow> x = k"
proof (cases "x = k")
  case True
  then show ?thesis by simp
next
  case False
  with assms have "x mod k = x" by (simp add: mod_pos_pos_trivial)
  with assms False show ?thesis by simp
qed

lemma dby_decomp:
  assumes "0 \<le> b" "b \<le> 3" "0 \<le> c" "c \<le> 24" "0 \<le> e" "e \<le> 3"
  shows "days_before_year (400 * a + 100 * b + 4 * c + e + 1)
           = 146097 * a + 36524 * b + 1461 * c + 365 * e"
proof -
  let ?y = "400 * a + 100 * b + 4 * c + e"
  have "?y = 4 * (100 * a + 25 * b + c) + e" by simp
  then have d4: "?y div 4 = 100 * a + 25 * b + c"
    using div_decomp(1)[of e 4 "100 * a + 25 * b + c"] assms by simp
  have "?y = 100 * (4 * a + b) + (4 * c + e)" by simp
  then have d100: "?y div 100 = 4 * a + b"
    using div_decomp(1)[of "4 * c + e" 100 "4 * a + b"] assms by simp
  have "?y = 400 * a + (100 * b + 4 * c + e)" by simp
  then have d400: "?y div 400 = a"
    using div_decomp(1)[of "100 * b + 4 * c + e" 400 a] assms by simp
  show ?thesis
    unfolding days_before_year_def Let_def using d4 d100 d400 by simp
qed

lemma leap_decomp:
  assumes "0 \<le> b" "b \<le> 3" "0 \<le> c" "c \<le> 24" "0 \<le> e" "e \<le> 3"
  shows "is_leap (400 * a + 100 * b + 4 * c + e + 1) \<longleftrightarrow> e = 3 \<and> (c \<noteq> 24 \<or> b = 3)"
proof -
  let ?y = "400 * a + 100 * b + 4 * c + e + 1"
  have "?y = 4 * (100 * a + 25 * b + c) + (e + 1)" by simp
  then have "?y mod 4 = (e + 1) mod 4"
    by (metis mod_mult_self4)
  moreover have "(e + 1) mod 4 = 0 \<longleftrightarrow> e + 1 = 4"
    using assms by (intro mod_eq_0_range) simp_all
  ultimately have m4: "?y mod 4 = 0 \<longleftrightarrow> e = 3" by auto
  have "?y = 100 * (4 * a + b) + (4 * c + e + 1)" by simp
  then have "?y mod 100 = (4 * c + e + 1) mod 100"
    by (metis mod_mult_self4)
  moreover have "(4 * c + e + 1) mod 100 = 0 \<longleftrightarrow> 4 * c + e + 1 = 100"
    using assms by (intro mod_eq_0_range) simp_all
  ultimately have m100: "?y mod 100 = 0 \<longleftrightarrow> 4 * c + e + 1 = 100" by simp
  have "?y = 400 * a + (100 * b + 4 * c + e + 1)" by simp
  then have "?y mod 400 = (100 * b + 4 * c + e + 1) mod 400"
    by (metis mod_mult_self4)
  moreover have "(100 * b + 4 * c + e + 1) mod 400 = 0 \<longleftrightarrow> 100 * b + 4 * c + e + 1 = 400"
    using assms by (intro mod_eq_0_range) simp_all
  ultimately have m400: "?y mod 400 = 0 \<longleftrightarrow> 100 * b + 4 * c + e + 1 = 400" by simp
  show ?thesis unfolding is_leap_def m4 m100 m400 using assms by auto
qed


lemma ord2ymd_unfold:
  "ord2ymd n0 =
    (let n = n0 - 1;
         n400 = n div DI400Y; n = n mod DI400Y;
         yr = n400 * 400 + 1;
         n100 = n div DI100Y; n = n mod DI100Y;
         n4 = n div DI4Y; n = n mod DI4Y;
         n1 = n div 365; n = n mod 365;
         yr = yr + (n100 * 100 + n4 * 4 + n1)
     in if n1 = 4 \<or> n100 = 4 then (yr - 1, 12, 31)
        else find_month yr (n1 = 3 \<and> (n4 \<noteq> 24 \<or> n100 = 3)) n)"
  unfolding ord2ymd_def find_month_def Let_def by (rule refl)

lemma table_nth:
  "DAYS_IN_MONTH ! Suc 0 = 31" "DAYS_IN_MONTH ! 2 = 28" "DAYS_IN_MONTH ! 3 = 31"
  "DAYS_IN_MONTH ! 4 = 30" "DAYS_IN_MONTH ! 5 = 31" "DAYS_IN_MONTH ! 6 = 30"
  "DAYS_IN_MONTH ! 7 = 31" "DAYS_IN_MONTH ! 8 = 31" "DAYS_IN_MONTH ! 9 = 30"
  "DAYS_IN_MONTH ! 10 = 31" "DAYS_IN_MONTH ! 11 = 30" "DAYS_IN_MONTH ! 12 = 31"
  "DAYS_BEFORE_MONTH ! Suc 0 = 0" "DAYS_BEFORE_MONTH ! 2 = 31"
  "DAYS_BEFORE_MONTH ! 3 = 59" "DAYS_BEFORE_MONTH ! 4 = 90"
  "DAYS_BEFORE_MONTH ! 5 = 120" "DAYS_BEFORE_MONTH ! 6 = 151"
  "DAYS_BEFORE_MONTH ! 7 = 181" "DAYS_BEFORE_MONTH ! 8 = 212"
  "DAYS_BEFORE_MONTH ! 9 = 243" "DAYS_BEFORE_MONTH ! 10 = 273"
  "DAYS_BEFORE_MONTH ! 11 = 304" "DAYS_BEFORE_MONTH ! 12 = 334"
  by (simp_all add: DAYS_BEFORE_MONTH_eq DAYS_IN_MONTH_def eval_nat_numeral)

lemma month_cases:
  fixes m :: int
  assumes "1 \<le> m" "m \<le> 12"
  shows "m = 1 \<or> m = 2 \<or> m = 3 \<or> m = 4 \<or> m = 5 \<or> m = 6
        \<or> m = 7 \<or> m = 8 \<or> m = 9 \<or> m = 10 \<or> m = 11 \<or> m = 12"
  using assms by arith


lemma find_month_correct:
  assumes "0 \<le> n" "n < (if is_leap y then 366 else 365)"
  shows "\<exists>m d. find_month y (is_leap y) n = (y, m, d) \<and>
           1 \<le> m \<and> m \<le> 12 \<and> 1 \<le> d \<and> d \<le> days_in_month y m
           \<and> days_before_month y m + d = n + 1"
proof -
  define k where "k = drop_bit 5 (n + 50)"
  have k: "k = (n + 50) div 32" by (simp add: k_def drop_bit_eq_div)
  have "(n + 50) = 32 * ((n + 50) div 32) + (n + 50) mod 32" by simp
  moreover have "0 \<le> (n + 50) mod 32" "(n + 50) mod 32 < 32" by simp_all
  ultimately have lo: "32 * k \<le> n + 50" and hi: "n + 50 < 32 * k + 32"
    unfolding k by linarith+
  have fm: "find_month y L n =
     (if DAYS_BEFORE_MONTH ! nat k + (if k > 2 \<and> L then 1 else 0) > n
      then (y, k - 1, n - (DAYS_BEFORE_MONTH ! nat k + (if k > 2 \<and> L then 1 else 0) -
                 (DAYS_IN_MONTH ! nat (k - 1) + (if k - 1 = 2 \<and> L then 1 else 0))) + 1)
      else (y, k, n - (DAYS_BEFORE_MONTH ! nat k + (if k > 2 \<and> L then 1 else 0)) + 1))" for L
    unfolding find_month_def Let_def k_def by (rule refl)
  have n366: "n < 366" using assms(2) by (simp split: if_splits)
  have "1 \<le> k" "k \<le> 12" using lo hi assms(1) n366 by linarith+
  then have "k = 1 \<or> k = 2 \<or> k = 3 \<or> k = 4 \<or> k = 5 \<or> k = 6
        \<or> k = 7 \<or> k = 8 \<or> k = 9 \<or> k = 10 \<or> k = 11 \<or> k = 12"
    by (rule month_cases)
  then show ?thesis using lo hi assms
    by (elim disjE; cases "is_leap y";
        simp add: fm table_nth days_in_month_def days_before_month_def)
qed


lemma year_bound:
  fixes a b c e r N :: int
  assumes N: "N = 146097 * a + 36524 * b + 1461 * c + 365 * e + r"
    and "N \<le> 3652058" "0 \<le> N" "0 \<le> r"
    and "0 \<le> a" "0 \<le> b" "b \<le> 3" "0 \<le> c" "c \<le> 24" "0 \<le> e" "e \<le> 3"
  shows "400 * a + 100 * b + 4 * c + e + 1 \<le> 9999"
proof -
  have "a \<le> 24" using assms by linarith
  show ?thesis
  proof (cases "a = 24")
    case False
    with \<open>a \<le> 24\<close> have "a \<le> 23" by simp
    with assms show ?thesis by linarith
  next
    case True
    have "\<not> (b = 3 \<and> c = 24 \<and> e = 3)" using assms True by auto
    then have "100 * b + 4 * c + e \<le> 398" using assms by linarith
    with True show ?thesis by simp
  qed
qed

lemma ord2ymd_correct:
  assumes "1 \<le> n" "n \<le> MAXORDINAL"
  shows "\<exists>y m d. ord2ymd n = (y, m, d) \<and> check_date_fields y m d \<and> ymd2ord y m d = n"
proof -
  define N where "N = n - 1"
  define a where "a = N div 146097"
  define r400 where "r400 = N mod 146097"
  define b where "b = r400 div 36524"
  define r100 where "r100 = r400 mod 36524"
  define c where "c = r100 div 1461"
  define r4 where "r4 = r100 mod 1461"
  define e where "e = r4 div 365"
  define r1 where "r1 = r4 mod 365"
  define yr where "yr = a * 400 + 1 + (b * 100 + c * 4 + e)"
  have eq: "ord2ymd n = (if e = 4 \<or> b = 4 then (yr - 1, 12, 31)
                          else find_month yr (e = 3 \<and> (c \<noteq> 24 \<or> b = 3)) r1)"
    unfolding ord2ymd_unfold Let_def DI_values yr_def e_def r1_def r4_def c_def r100_def
      b_def r400_def a_def N_def by (rule refl)
  have N: "0 \<le> N" "N \<le> 3652058" using assms by (simp_all add: N_def MAXORDINAL_def)
  have d400: "N = 146097 * a + r400" "0 \<le> r400" "r400 < 146097"
    by (simp_all add: a_def r400_def)
  have d100: "r400 = 36524 * b + r100" "0 \<le> r100" "r100 < 36524"
    by (simp_all add: b_def r100_def)
  have d4: "r100 = 1461 * c + r4" "0 \<le> r4" "r4 < 1461"
    by (simp_all add: c_def r4_def)
  have d1: "r4 = 365 * e + r1" "0 \<le> r1" "r1 < 365"
    by (simp_all add: e_def r1_def)
  have a0: "0 \<le> a" using d400 N by linarith
  have b0: "0 \<le> b" "b \<le> 4" using d100 d400 by linarith+
  have c0: "0 \<le> c" "c \<le> 24" using d4 d100 by linarith+
  have e0: "0 \<le> e" "e \<le> 4" using d1 d4 by linarith+
  have yr: "yr = 400 * a + 100 * b + 4 * c + e + 1" by (simp add: yr_def)
  show ?thesis
  proof (cases "b = 4")
    case True
    then have z: "r100 = 0" "c = 0" "r4 = 0" "e = 0" "r1 = 0"
      using d400 d100 d4 d1 c0 e0 by linarith+
    have y1: "yr - 1 = 400 * a + 100 * 3 + 4 * 24 + 3 + 1" using True z by (simp add: yr)
    have Neq: "N = 146097 * a + 36524 * 3 + 1461 * 24 + 365 * 3 + 365"
      using d400 d100 True z by simp
    have yb: "400 * a + 100 * 3 + 4 * 24 + 3 + 1 \<le> 9999"
      by (rule year_bound[OF Neq]) (use N a0 in simp_all)
    have lp: "is_leap (yr - 1)" unfolding y1 by (subst leap_decomp) simp_all
    have dby: "days_before_year (yr - 1) = 146097 * a + 36524 * 3 + 1461 * 24 + 365 * 3"
      unfolding y1 by (subst dby_decomp) simp_all
    have "check_date_fields (yr - 1) 12 31"
      using yb a0 lp unfolding y1[symmetric]
      by (simp add: check_date_fields_def MINYEAR_def MAXYEAR_def days_in_month_def table_nth y1)
    moreover have "ymd2ord (yr - 1) 12 31 = n"
      using lp Neq by (simp add: ymd2ord_def dby days_before_month_def table_nth N_def)
    ultimately show ?thesis using True by (simp add: eq)
  next
    case b4: False
    then have b3: "b \<le> 3" using b0 by simp
    show ?thesis
    proof (cases "e = 4")
      case True
      then have r10: "r1 = 0" using d1 d4 by linarith
      have c23: "c \<le> 23" using d4 d100 d1 True by linarith
      have y1: "yr - 1 = 400 * a + 100 * b + 4 * c + 3 + 1" using True by (simp add: yr)
      have Neq: "N = 146097 * a + 36524 * b + 1461 * c + 365 * 3 + 365"
        using d400 d100 d4 d1 True r10 by simp
      have yb: "400 * a + 100 * b + 4 * c + 3 + 1 \<le> 9999"
        by (rule year_bound[OF Neq]) (use N a0 b0 b3 c0 in simp_all)
      have lp: "is_leap (yr - 1)" unfolding y1 using b0 b3 c0 c23
        by (subst leap_decomp) simp_all
      have dby: "days_before_year (yr - 1) = 146097 * a + 36524 * b + 1461 * c + 365 * 3"
        unfolding y1 using b0 b3 c0 by (subst dby_decomp) simp_all
      have "check_date_fields (yr - 1) 12 31"
        using yb a0 b0 c0 lp unfolding y1[symmetric]
        by (simp add: check_date_fields_def MINYEAR_def MAXYEAR_def days_in_month_def
            table_nth y1)
      moreover have "ymd2ord (yr - 1) 12 31 = n"
        using lp Neq by (simp add: ymd2ord_def dby days_before_month_def table_nth N_def)
      ultimately show ?thesis using True by (simp add: eq)
    next
      case False
      then have e3: "e \<le> 3" using e0 by simp
      have Neq: "N = 146097 * a + 36524 * b + 1461 * c + 365 * e + r1"
        using d400 d100 d4 d1 by simp
      have yb: "yr \<le> 9999" unfolding yr
        by (rule year_bound[OF Neq]) (use N a0 b0 b3 c0 e0 e3 d1 in simp_all)
      have lp: "is_leap yr \<longleftrightarrow> e = 3 \<and> (c \<noteq> 24 \<or> b = 3)"
        unfolding yr using b0(1) b3 c0 e0(1) e3 by (rule leap_decomp)
      have dby: "days_before_year yr = 146097 * a + 36524 * b + 1461 * c + 365 * e"
        unfolding yr using b0(1) b3 c0 e0(1) e3 by (rule dby_decomp)
      have "r1 < (if is_leap yr then 366 else 365)" using d1 by simp
      from find_month_correct[OF d1(2) this]
      obtain m d where md: "find_month yr (is_leap yr) r1 = (yr, m, d)"
        "1 \<le> m" "m \<le> 12" "1 \<le> d" "d \<le> days_in_month yr m"
        "days_before_month yr m + d = r1 + 1" by blast
      have "ord2ymd n = (yr, m, d)" using False b4 md(1) by (simp add: eq lp)
      moreover have "check_date_fields yr m d"
        using md yb a0 b0 c0 e0 by (simp add: check_date_fields_def MINYEAR_def MAXYEAR_def yr)
      moreover have "ymd2ord yr m d = n"
        using md(6) Neq by (simp add: ymd2ord_def dby N_def)
      ultimately show ?thesis by simp
    qed
  qed
qed


lemma div_pred:
  fixes y k :: int
  assumes "0 < k"
  shows "y div k = (y - 1) div k + (if y mod k = 0 then 1 else 0)"
proof (cases "y mod k = 0")
  case True
  have "k * (y div k) + y mod k = y" by (rule mult_div_mod_eq)
  with True have "k * (y div k) = y" by simp
  then have eq: "y - 1 = k * (y div k - 1) + (k - 1)"
    by (simp add: right_diff_distrib)
  have "(k * (y div k - 1) + (k - 1)) div k = y div k - 1"
    by (rule div_decomp(1)) (use assms in simp_all)
  then have "(y - 1) div k = y div k - 1" by (simp only: eq[symmetric])
  with True show ?thesis by simp
next
  case False
  have "0 \<le> y mod k" using assms by simp
  with False have pos: "0 \<le> y mod k - 1" by simp
  have lt: "y mod k - 1 < k" using pos_mod_bound[OF assms, of y] by simp
  have "k * (y div k) + y mod k = y" by (rule mult_div_mod_eq)
  then have eq: "y - 1 = k * (y div k) + (y mod k - 1)" by linarith
  have "(k * (y div k) + (y mod k - 1)) div k = y div k"
    by (rule div_decomp(1)[OF pos lt])
  then have "(y - 1) div k = y div k" by (simp only: eq[symmetric])
  with False show ?thesis by simp
qed


lemma mod_chain:
  fixes y :: int
  shows "y mod 400 = 0 \<Longrightarrow> y mod 100 = 0" "y mod 100 = 0 \<Longrightarrow> y mod 4 = 0"
proof -
  assume "y mod 400 = 0"
  then have "400 dvd y" by (simp add: dvd_eq_mod_eq_0)
  moreover have "(100::int) dvd 400" by simp
  ultimately have "100 dvd y" by (rule dvd_trans[rotated])
  then show "y mod 100 = 0" by (simp add: dvd_eq_mod_eq_0)
next
  assume "y mod 100 = 0"
  then have "100 dvd y" by (simp add: dvd_eq_mod_eq_0)
  moreover have "(4::int) dvd 100" by simp
  ultimately have "4 dvd y" by (rule dvd_trans[rotated])
  then show "y mod 4 = 0" by (simp add: dvd_eq_mod_eq_0)
qed

lemma dby_step: "days_before_year (y + 1) = days_before_year y + days_in_year y"
proof -
  define p4 p100 p400 where "p4 = (y - 1) div 4" and "p100 = (y - 1) div 100"
    and "p400 = (y - 1) div 400"
  define q4 q100 q400 where "q4 = y div 4" and "q100 = y div 100" and "q400 = y div 400"
  have e4: "q4 = p4 + (if y mod 4 = 0 then 1 else 0)"
    unfolding q4_def p4_def by (rule div_pred) simp
  have e100: "q100 = p100 + (if y mod 100 = 0 then 1 else 0)"
    unfolding q100_def p100_def by (rule div_pred) simp
  have e400: "q400 = p400 + (if y mod 400 = 0 then 1 else 0)"
    unfolding q400_def p400_def by (rule div_pred) simp
  have lhs: "days_before_year (y + 1) = y * 365 + q4 - q100 + q400"
    by (simp add: days_before_year_def q4_def q100_def q400_def)
  have rhs: "days_before_year y = y * 365 - 365 + p4 - p100 + p400"
    by (simp add: days_before_year_def Let_def left_diff_distrib p4_def p100_def p400_def)
  have leap: "days_in_year y =
     (if y mod 4 = 0 \<and> (y mod 100 \<noteq> 0 \<or> y mod 400 = 0) then 366 else 365)"
    by (simp add: days_in_year_def is_leap_def)
  show ?thesis
  proof (cases "y mod 4 = 0")
    case False
    with mod_chain[of y] have "y mod 100 \<noteq> 0" "y mod 400 \<noteq> 0" by auto
    with False show ?thesis
      unfolding lhs rhs leap e4 e100 e400 by simp
  next
    case m4: True
    show ?thesis
    proof (cases "y mod 100 = 0")
      case False
      with mod_chain[of y] have "y mod 400 \<noteq> 0" by auto
      with False m4 show ?thesis
        unfolding lhs rhs leap e4 e100 e400 by simp
    next
      case m100: True
      show ?thesis
      proof (cases "y mod 400 = 0")
        case False
        with m4 m100 show ?thesis
          unfolding lhs rhs leap e4 e100 e400 by simp
      next
        case True
        with m4 m100 show ?thesis
          unfolding lhs rhs leap e4 e100 e400 by simp
      qed
    qed
  qed
qed

lemma dby_mono: "y \<le> y' \<Longrightarrow> days_before_year y \<le> days_before_year y'"
proof (induction y' rule: int_ge_induct)
  case base
  show ?case by simp
next
  case (step i)
  then show ?case using dby_step[of i] by (simp add: days_in_year_def split: if_splits)
qed

lemma dbm_step:
  assumes "1 \<le> m" "m \<le> 11"
  shows "days_before_month y (m + 1) = days_before_month y m + days_in_month y m"
proof -
  have "m = 1 \<or> m = 2 \<or> m = 3 \<or> m = 4 \<or> m = 5 \<or> m = 6
        \<or> m = 7 \<or> m = 8 \<or> m = 9 \<or> m = 10 \<or> m = 11" using assms by arith
  then show ?thesis
    by (elim disjE; simp add: days_before_month_def days_in_month_def table_nth)
qed

lemma dim_pos:
  assumes "1 \<le> m" "m \<le> 12"
  shows "28 \<le> days_in_month y m"
  using month_cases[OF assms]
  by (elim disjE; simp add: days_in_month_def table_nth)

lemma dbm_mono:
  assumes "1 \<le> m" "m < m'" "m' \<le> 12"
  shows "days_before_month y m + days_in_month y m \<le> days_before_month y m'"
proof -
  have "m + 1 \<le> m'" using assms by simp
  then show ?thesis using assms(3)
  proof (induction m' rule: int_ge_induct)
    case base
    then show ?case using dbm_step[of m y] assms by simp
  next
    case (step i)
    then show ?case using dbm_step[of i y] dim_pos[of i y] assms by simp
  qed
qed

lemma dbm_first: "days_before_month y 1 = 0"
  by (simp add: days_before_month_def table_nth)

lemma dbm_last: "days_before_month y 12 + days_in_month y 12 = days_in_year y"
  by (simp add: days_before_month_def days_in_month_def days_in_year_def table_nth)

lemma dbm_nonneg:
  assumes "1 \<le> m" "m \<le> 12"
  shows "0 \<le> days_before_month y m"
proof (cases "m = 1")
  case True then show ?thesis by (simp add: dbm_first)
next
  case False
  then have "1 < m" using assms by simp
  from dbm_mono[of 1 m y] this assms dim_pos[of 1 y] show ?thesis
    by (simp add: dbm_first)
qed

lemma day_of_year_bounds:
  assumes "check_date_fields y m d"
  shows "1 \<le> days_before_month y m + d" "days_before_month y m + d \<le> days_in_year y"
proof -
  from assms have m: "1 \<le> m" "m \<le> 12" and d: "1 \<le> d" "d \<le> days_in_month y m"
    by (simp_all add: check_date_fields_def)
  show "1 \<le> days_before_month y m + d" using dbm_nonneg[OF m, of y] d by simp
  show "days_before_month y m + d \<le> days_in_year y"
  proof (cases "m = 12")
    case True then show ?thesis using d dbm_last[of y] by simp
  next
    case False
    then have "m < 12" using m by simp
    from dbm_mono[OF m(1) this, of y] dbm_last[of y] dim_pos[of 12 y] d show ?thesis by simp
  qed
qed

lemma toordinal_range:
  assumes "valid_date a"
  shows "1 \<le> toordinal a" "toordinal a \<le> MAXORDINAL"
proof -
  from assms have c: "check_date_fields (year a) (month a) (day a)"
    by (simp add: valid_date_def)
  then have y: "1 \<le> year a" "year a + 1 \<le> 10000"
    by (simp_all add: check_date_fields_def MINYEAR_def MAXYEAR_def)
  have "days_before_year 1 = 0" "days_before_year 10000 = 3652059"
    by (simp_all add: days_before_year_def)
  with dby_mono[OF y(1)] dby_mono[OF y(2)] dby_step[of "year a"] day_of_year_bounds[OF c]
  show "1 \<le> toordinal a" "toordinal a \<le> MAXORDINAL"
    by (simp_all add: toordinal_def ymd2ord_def MAXORDINAL_def)
qed

lemma toordinal_mono:
  assumes "valid_date a" "valid_date b" "date_lt a b"
  shows "toordinal a < toordinal b"
proof -
  from assms have ca: "check_date_fields (year a) (month a) (day a)"
    and cb: "check_date_fields (year b) (month b) (day b)"
    by (simp_all add: valid_date_def)
  consider "year a < year b"
    | "year a = year b" "month a < month b"
    | "year a = year b" "month a = month b" "day a < day b"
    using assms(3) by (auto simp: date_lt_def)
  then show ?thesis
  proof cases
    case 1
    then have "year a + 1 \<le> year b" by simp
    from dby_mono[OF this] dby_step[of "year a"] day_of_year_bounds[OF ca]
      day_of_year_bounds[OF cb]
    show ?thesis by (simp add: toordinal_def ymd2ord_def)
  next
    case 2
    from ca cb have "1 \<le> month a" "month b \<le> 12" "day a \<le> days_in_month (year a) (month a)"
      "1 \<le> day b"
      by (simp_all add: check_date_fields_def)
    with dbm_mono[OF this(1) 2(2) this(2), of "year a"] 2(1)
    show ?thesis by (simp add: toordinal_def ymd2ord_def)
  next
    case 3
    then show ?thesis by (simp add: toordinal_def ymd2ord_def)
  qed
qed

lemma date_lt_total: "a = b \<or> date_lt a b \<or> date_lt b a"
  by (cases a; cases b) (auto simp: date_lt_def)

lemma toordinal_inj:
  assumes "valid_date a" "valid_date b" "toordinal a = toordinal b"
  shows "a = b"
  using date_lt_total[of a b] toordinal_mono[OF assms(1,2)] toordinal_mono[OF assms(2,1)]
    assms(3) by auto

lemma fromordinal_ok:
  assumes "1 \<le> n" "n \<le> MAXORDINAL"
  shows "\<exists>d. fromordinal n = Inr d \<and> valid_date d \<and> toordinal d = n"
proof -
  from ord2ymd_correct[OF assms] obtain y m d where
    "ord2ymd n = (y, m, d)" "check_date_fields y m d" "ymd2ord y m d = n" by blast
  then show ?thesis
    by (simp add: fromordinal_def date_new_def valid_date_def toordinal_def)
qed

lemma fromordinal_toordinal:
  assumes "valid_date a"
  shows "fromordinal (toordinal a) = Inr a"
proof -
  from fromordinal_ok[OF toordinal_range[OF assms]] obtain d where
    d: "fromordinal (toordinal a) = Inr d" "valid_date d" "toordinal d = toordinal a" by blast
  from toordinal_inj[OF d(2) assms d(3)] d(1) show ?thesis by simp
qed


section \<open>Facts about parsing\<close>










lemma of_char_eq_iff_nat: "(of_char a :: nat) = of_char b \<longleftrightarrow> a = b"
  by (metis char_of_char)

lemma is_digit_not_blank: "is_digit c \<Longrightarrow> c \<noteq> CHR '' ''"
  by (auto simp: is_digit_def in_range_def)

lemma dropWhile_hd: "xs \<noteq> [] \<Longrightarrow> \<not> P (hd xs) \<Longrightarrow> dropWhile P xs = xs"
  by (cases xs) simp_all

lemma strip_digits:
  assumes "list_all is_digit t"
  shows "strip t = t"
proof (cases t)
  case Nil
  then show ?thesis by (simp add: strip_def)
next
  case (Cons a u)
  with assms have a: "a \<noteq> CHR '' ''" by (simp add: is_digit_not_blank)
  from assms Cons have "is_digit (last t)" by (simp add: list_all_iff)
  then have l: "last t \<noteq> CHR '' ''" by (rule is_digit_not_blank)
  have "dropWhile (\<lambda>c. c = CHR '' '') t = t" using Cons a by simp
  moreover have "dropWhile (\<lambda>c. c = CHR '' '') (rev t) = rev t"
  proof (rule dropWhile_hd)
    from Cons show "rev t \<noteq> []" by simp
    from Cons have "t \<noteq> []" by simp
    then have "hd (rev t) = last t" by (simp add: hd_rev)
    with l show "\<not> hd (rev t) = CHR '' ''" by simp
  qed
  ultimately show ?thesis by (simp add: strip_def)
qed

lemma py_int_digits:
  assumes "t \<noteq> []" "list_all is_digit t"
  shows "py_int t = Inr (decimal t)"
  using assms by (simp add: py_int_def decimal_def strip_digits Let_def)

lemma range_is_digit:
  "in_range (CHR ''1'') (CHR ''9'') c \<Longrightarrow> is_digit c"
  "in_range (CHR ''0'') (CHR ''2'') c \<Longrightarrow> is_digit c"
  "in_range (CHR ''0'') (CHR ''1'') c \<Longrightarrow> is_digit c"
  "in_range (CHR ''1'') (CHR ''2'') c \<Longrightarrow> is_digit c"
  by (auto simp: is_digit_def in_range_def)

lemma month_text_digits:
  assumes "month_text m"
  shows "m \<noteq> [] \<and> list_all is_digit m"
  using assms
  by (auto simp: month_text_def is_digit_def in_range_def split: list.splits)

lemma py_int_month: "month_text m \<Longrightarrow> py_int m = Inr (decimal m)"
  using month_text_digits[of m] by (simp add: py_int_digits)

lemma py_int_day:
  assumes "day_text d"
  shows "py_int d = Inr (decimal d)"
proof (cases "hd d = CHR '' ''")
  case True
  with assms obtain b where d: "d = [CHR '' '', b]" and b: "in_range (CHR ''1'') (CHR ''9'') b"
    by (auto simp: day_text_def in_range_def is_digit_def split: list.splits)
  from b have nb: "b \<noteq> CHR '' ''" by (auto simp: in_range_def)
  from b have "is_digit b" by (rule range_is_digit)
  with nb show ?thesis by (simp add: d py_int_def decimal_def strip_def Let_def)
next
  case False
  with assms have "d \<noteq> [] \<and> list_all is_digit d"
    by (auto simp: day_text_def is_digit_def in_range_def split: list.splits)
  then show ?thesis by (simp add: py_int_digits)
qed




lemma re_Y_app:
  assumes "length Y = 4" "list_all is_digit Y"
  shows "re_Y (Y @ r) = [(Y, r)]"
proof -
  from assms(1) obtain a b c e where "Y = [a, b, c, e]"
    by (auto simp: length_Suc_conv eval_nat_numeral)
  with assms(2) show ?thesis by (simp add: re_Y_def seq_def)
qed

lemma not_range_hyphen:
  "\<not> in_range (CHR ''0'') (CHR ''2'') (CHR ''-'')"
  "\<not> in_range (CHR ''1'') (CHR ''9'') (CHR ''-'')"
  "\<not> in_range (CHR ''0'') (CHR ''1'') (CHR ''-'')"
  "\<not> is_digit (CHR ''-'')"
  by (simp_all add: in_range_def is_digit_def)

lemma range_not_hyphen:
  "in_range (CHR ''0'') (CHR ''2'') c \<Longrightarrow> c \<noteq> CHR ''-''"
  "in_range (CHR ''1'') (CHR ''9'') c \<Longrightarrow> c \<noteq> CHR ''-''"
  by (auto simp: in_range_def)

lemma re_m_then_hyphen:
  assumes "month_text m"
  shows "concat (map (\<lambda>(m', r3). concat (map (\<lambda>(u, r4). K m' r4) (lit (CHR ''-'') r3)))
           (re_m (m @ CHR ''-'' # r))) = K m r"
proof -
  from assms consider
      a where "m = [a]" "in_range (CHR ''1'') (CHR ''9'') a"
    | b where "m = [CHR ''1'', b]" "in_range (CHR ''0'') (CHR ''2'') b"
    | b where "m = [CHR ''0'', b]" "in_range (CHR ''1'') (CHR ''9'') b"
    by (auto simp: month_text_def split: list.splits)
  then show ?thesis
  proof cases
    case 1
    then have "a \<noteq> CHR ''0''" by (auto simp: in_range_def)
    with 1 show ?thesis
      by (simp add: re_m_def alt_def seq_def lit_def not_range_hyphen)
  next
    case 2
    then have "b \<noteq> CHR ''-''" by (auto simp: in_range_def)
    with 2 show ?thesis
      by (simp add: re_m_def alt_def seq_def lit_def in_range_def)
  next
    case 3
    with 3 show ?thesis
      by (simp add: re_m_def alt_def seq_def lit_def in_range_def)
  qed
qed

lemma re_d_full:
  assumes "day_text d"
  shows "\<exists>rest. re_d d = (d, []) # rest"
proof -
  from assms consider
      a where "d = [a]" "in_range (CHR ''1'') (CHR ''9'') a"
    | b where "d = [CHR ''3'', b]" "in_range (CHR ''0'') (CHR ''1'') b"
    | a b where "d = [a, b]" "in_range (CHR ''1'') (CHR ''2'') a" "is_digit b"
    | b where "d = [CHR ''0'', b]" "in_range (CHR ''1'') (CHR ''9'') b"
    | b where "d = [CHR '' '', b]" "in_range (CHR ''1'') (CHR ''9'') b"
    by (auto simp: day_text_def split: list.splits)
  then show ?thesis
  proof cases
    case 1
    then have "a \<noteq> CHR ''0''" "a \<noteq> CHR '' ''" by (auto simp: in_range_def)
    with 1 show ?thesis
      by (simp add: re_d_def alt_def seq_def lit_def)
  next
    case 2
    then show ?thesis by (simp add: re_d_def alt_def seq_def lit_def)
  next
    case 3
    then have "a \<noteq> CHR ''3''" by (auto simp: in_range_def)
    with 3 show ?thesis by (simp add: re_d_def alt_def seq_def lit_def)
  next
    case 4
    then show ?thesis by (simp add: re_d_def alt_def seq_def lit_def in_range_def)
  next
    case 5
    then show ?thesis by (simp add: re_d_def alt_def seq_def lit_def in_range_def)
  qed
qed

lemma strptime_complete:
  assumes "denotes s dt"
  shows "strptime s = Inr dt"
proof -
  from assms obtain Y m d where
    s: "s = Y @ ''-'' @ m @ ''-'' @ d" and
    Y: "length Y = 4" "list_all is_digit Y" and
    m: "month_text m" and d: "day_text d" and
    dt: "dt = Date (decimal Y) (decimal m) (decimal d)" "valid_date dt"
    unfolding denotes_def by blast
  from re_d_full[OF d] obtain rest where rd: "re_d d = (d, []) # rest" by blast
  have "format_regex s =
      concat (map (\<lambda>(m', r3). concat (map (\<lambda>(u, r4).
          map (\<lambda>(d', r5). ((Y, m', d'), r5)) (re_d r4)) (lit (CHR ''-'') r3)))
        (re_m (m @ CHR ''-'' # d)))"
    using re_Y_app[OF Y, of "CHR ''-'' # m @ CHR ''-'' # d"]
    by (simp add: format_regex_def s lit_def)
  also have "\<dots> = map (\<lambda>(d', r5). ((Y, m, d'), r5)) (re_d d)"
    by (rule re_m_then_hyphen[OF m])
  finally have "re_match s = Some ((Y, m, d), [])"
    by (simp add: re_match_def rd)
  moreover have "py_int Y = Inr (decimal Y)" using Y by (intro py_int_digits) auto
  moreover have "py_int m = Inr (decimal m)" using m by (rule py_int_month)
  moreover have "py_int d = Inr (decimal d)" using d by (rule py_int_day)
  moreover have "date_new (decimal Y) (decimal m) (decimal d) = Inr dt"
    using dt by (simp add: date_new_def valid_date_def)
  ultimately show ?thesis by (simp add: strptime_def)
qed

section \<open>Facts about \<open>date_range\<close>\<close>

lemma date_new_valid: "date_new y m d = Inr dt \<Longrightarrow> valid_date dt"
  by (auto simp: date_new_def valid_date_def split: if_splits)

lemma strptime_valid: "strptime s = Inr dt \<Longrightarrow> valid_date dt"
  by (auto simp: strptime_def split: option.splits prod.splits if_splits sum.splits
      dest: date_new_valid)

lemma to_date_valid:
  assumes "valid_spec x" "to_date x = Inr d"
  shows "valid_date d"
  using assms
  by (cases x) (auto simp: valid_spec_def to_date_def str_to_datetime_date_def
      dest: strptime_valid)

lemma toordinal_less_imp_date_lt:
  assumes "valid_date a" "valid_date b" "toordinal a < toordinal b"
  shows "date_lt a b"
  using date_lt_total[of a b] toordinal_mono[OF assms(2,1)] assms(3) by auto

lemma date_le_toordinal:
  assumes "valid_date a" "valid_date b" "date_le a b"
  shows "toordinal a \<le> toordinal b"
  using assms toordinal_mono[of a b] by (auto simp: date_le_def)

lemma date_add_ok:
  assumes "valid_date s" "0 \<le> k" "toordinal s + k \<le> MAXORDINAL"
  shows "\<exists>d. date_add s k = Inr d \<and> valid_date d \<and> toordinal d = toordinal s + k"
proof -
  have "1 \<le> toordinal s + k" using toordinal_range(1)[OF assms(1)] assms(2) by simp
  from fromordinal_ok[OF this assms(3)] this assms(3) show ?thesis
    by (simp add: date_add_def Let_def)
qed

lemma timedelta_ok:
  assumes "- MAXORDINAL \<le> k" "k \<le> MAXORDINAL"
  shows "timedelta k = Inr k"
  using assms by (simp add: timedelta_def MAXORDINAL_def)

lemma date_range_loop_ok:
  assumes "valid_date s" "\<forall>k\<in>set ks. 0 \<le> k \<and> toordinal s + k \<le> MAXORDINAL"
  shows "\<exists>ds. date_range_loop s ks = (ds, None) \<and> list_all valid_date ds
            \<and> map toordinal ds = map (\<lambda>k. toordinal s + k) ks"
  using assms(2)
proof (induction ks)
  case Nil
  show ?case by simp
next
  case (Cons k ks)
  then have k: "0 \<le> k" "toordinal s + k \<le> MAXORDINAL" by simp_all
  have "k \<le> MAXORDINAL" using k toordinal_range(1)[OF assms(1)] by simp
  then have td: "timedelta k = Inr k" using k(1) by (intro timedelta_ok) (simp_all add: MAXORDINAL_def)
  from date_add_ok[OF assms(1) k] obtain d where
    d: "date_add s k = Inr d" "valid_date d" "toordinal d = toordinal s + k" by blast
  from Cons obtain ds where
    ds: "date_range_loop s ks = (ds, None)" "list_all valid_date ds"
        "map toordinal ds = map (\<lambda>k. toordinal s + k) ks" by auto
  show ?case using td d ds by simp
qed

lemma date_range_dates:
  assumes "to_date start = Inr s" "to_date end = Inr e" "valid_date s" "valid_date e"
  shows "\<exists>ds. date_range start end inc = (ds, None) \<and> list_all valid_date ds
            \<and> map toordinal ds =
                map (\<lambda>k. toordinal s + k)
                  (py_range (toordinal e - toordinal s + (if inc then 1 else 0)))"
proof -
  let ?n = "toordinal e - toordinal s + (if inc then 1 else 0)"
  have sub: "date_sub e s = Inr (toordinal e - toordinal s)"
    unfolding date_sub_def
    using toordinal_range[OF assms(3)] toordinal_range[OF assms(4)]
    by (intro timedelta_ok) simp_all
  have "\<forall>k\<in>set (py_range ?n). 0 \<le> k \<and> toordinal s + k \<le> MAXORDINAL"
    using toordinal_range(2)[OF assms(4)] by (auto simp: py_range_def)
  from date_range_loop_ok[OF assms(3) this] obtain ds where
    ds: "date_range_loop s (py_range ?n) = (ds, None)" "list_all valid_date ds"
        "map toordinal ds = map (\<lambda>k. toordinal s + k) (py_range ?n)" by blast
  have "date_range start end inc = date_range_loop s (py_range ?n)"
    by (simp add: date_range_def assms(1,2) sub Let_def)
  with ds show ?thesis by simp
qed

lemma date_range_cases:
  assumes "valid_spec start" "valid_spec end"
  obtains e where "date_range start end inc = ([], Some e)"
  | s e where "to_date start = Inr s" "to_date end = Inr e" "valid_date s" "valid_date e"
proof (cases "to_date start")
  case (Inl a)
  then have "date_range start end inc = ([], Some a)" by (simp add: date_range_def)
  then show ?thesis by (rule that(1))
next
  case s: (Inr s)
  show ?thesis
  proof (cases "to_date end")
    case (Inl a)
    then have "date_range start end inc = ([], Some a)" by (simp add: date_range_def s)
    then show ?thesis by (rule that(1))
  next
    case (Inr e)
    from s Inr to_date_valid[OF assms(1) s] to_date_valid[OF assms(2) Inr]
    show ?thesis by (rule that(2))
  qed
qed

lemma py_range_length: "length (py_range n) = nat n"
  by (simp add: py_range_def)

lemma py_range_nth: "i < nat n \<Longrightarrow> py_range n ! i = int i"
  by (simp add: py_range_def)


section \<open>Facts about \<open>value_or_null\<close>\<close>

lemma value_or_null_loop_prefix:
  assumes "value_or_null_loop qs da va ds t = (vs, t')"
  shows "length vs \<le> length ds
       \<and> (\<forall>i<length vs. value_or_null_body qs da va (ds ! i) = Inr (vs ! i))
       \<and> (length vs = length ds \<longrightarrow> t' = t)
       \<and> (length vs < length ds \<longrightarrow>
            (\<exists>e. t' = Some e \<and> value_or_null_body qs da va (ds ! length vs) = Inl e))"
  using assms
proof (induction ds arbitrary: vs t')
  case Nil
  then show ?case by simp
next
  case (Cons d ds)
  show ?case
  proof (cases "value_or_null_body qs da va d")
    case (Inl e)
    with Cons.prems show ?thesis by auto
  next
    case (Inr v)
    obtain ys t2 where r: "value_or_null_loop qs da va ds t = (ys, t2)"
      by (cases "value_or_null_loop qs da va ds t")
    with Inr Cons.prems have vs: "vs = v # ys" and t2: "t2 = t'" by simp_all
    from Cons.IH[OF r] have
      ih: "length ys \<le> length ds"
          "\<forall>i<length ys. value_or_null_body qs da va (ds ! i) = Inr (ys ! i)"
          "length ys = length ds \<longrightarrow> t2 = t"
          "length ys < length ds \<longrightarrow>
            (\<exists>e. t2 = Some e \<and> value_or_null_body qs da va (ds ! length ys) = Inl e)"
      by simp_all
    have "\<forall>i<length vs. value_or_null_body qs da va ((d # ds) ! i) = Inr (vs ! i)"
    proof (intro allI impI)
      fix i assume "i < length vs"
      then show "value_or_null_body qs da va ((d # ds) ! i) = Inr (vs ! i)"
        using ih(2) Inr vs by (cases i) simp_all
    qed
    with ih(1,3,4) show ?thesis by (simp add: vs t2)
  qed
qed

lemma value_or_null_loop_all:
  assumes "\<forall>i<length ds. \<exists>v. value_or_null_body qs da va (ds ! i) = Inr v"
  shows "\<exists>vs. value_or_null_loop qs da va ds t = (vs, t) \<and> length vs = length ds"
proof -
  obtain vs t' where r: "value_or_null_loop qs da va ds t = (vs, t')"
    by (cases "value_or_null_loop qs da va ds t")
  note p = value_or_null_loop_prefix[OF r]
  have "\<not> length vs < length ds"
  proof
    assume l: "length vs < length ds"
    with p obtain e where "value_or_null_body qs da va (ds ! length vs) = Inl e" by blast
    with assms l show False by auto
  qed
  with p have "length vs = length ds" "t' = t" by auto
  with r show ?thesis by simp
qed

lemma date_range_of_dates:
  assumes "to_date start = Inr s" "to_date end = Inr e"
  shows "date_range (DateSpec s) (DateSpec e) inc = date_range start end inc"
  using assms by (simp add: date_range_def to_date_def)

lemma value_or_null_unfold:
  assumes "date_range start end True = (ds, t0)"
  shows "value_or_null start end qs da va =
           (if ds = [] \<and> t0 \<noteq> None then ([], t0) else value_or_null_loop qs da va ds t0)"
proof (cases "to_date start")
  case (Inl a)
  with assms show ?thesis by (auto simp: value_or_null_def date_range_def)
next
  case s: (Inr s)
  show ?thesis
  proof (cases "to_date end")
    case (Inl a)
    with assms s show ?thesis by (auto simp: value_or_null_def date_range_def)
  next
    case (Inr e)
    from date_range_of_dates[OF s Inr, of True] assms
    have "value_or_null start end qs da va = value_or_null_loop qs da va ds t0"
      by (simp add: value_or_null_def s Inr)
    then show ?thesis by simp
  qed
qed

lemma value_or_null_prefix:
  assumes "date_range start end True = (ds, t0)"
    and "value_or_null start end qs da va = (vs, t)"
  shows "length vs \<le> length ds
       \<and> (\<forall>i<length vs. value_or_null_body qs da va (ds ! i) = Inr (vs ! i))
       \<and> (length vs = length ds \<longrightarrow> t = t0)
       \<and> (length vs < length ds \<longrightarrow>
            (\<exists>e. t = Some e \<and> value_or_null_body qs da va (ds ! length vs) = Inl e))"
proof (cases "ds = [] \<and> t0 \<noteq> None")
  case True
  with assms(2) value_or_null_unfold[OF assms(1), of qs da va] show ?thesis by auto
next
  case False
  with assms(2) value_or_null_unfold[OF assms(1), of qs da va]
  have "value_or_null_loop qs da va ds t0 = (vs, t)" by auto
  then show ?thesis by (rule value_or_null_loop_prefix)
qed

lemma body_one:
  assumes "qs (build_query da d) = Inr [r]" "r va = Some v"
  shows "value_or_null_body qs da va d = Inr v"
  using assms by (simp add: value_or_null_body_def)

lemma body_none:
  assumes "qs (build_query da d) = Inr []"
  shows "value_or_null_body qs da va d = Inr (Str ''null'')"
  using assms by (simp add: value_or_null_body_def NULL_def)

lemma body_many:
  assumes "qs (build_query da d) = Inr items" "2 \<le> length items"
  shows "value_or_null_body qs da va d = Inr (Str ''null'')"
  using assms by (simp add: value_or_null_body_def NULL_def)



section \<open>The date range generator\<close>

text \<open>
  Claim C1. Whatever the two arguments are, strings or date objects, the dates that
  \<open>date_range\<close> yields go up by exactly one day per step: each date after the first
  is its predecessor plus \<^verbatim>\<open>timedelta(1)\<close> and is strictly later than it, and no
  date occurs twice. (When a string does not parse, no date is yielded at all.)
\<close>

theorem date_range_one_day_steps:
  assumes "valid_spec start_date" "valid_spec end_date"
    and "date_range start_date end_date inclusive = (ds, t)"
  shows "distinct ds \<and>
         (\<forall>i. Suc i < length ds \<longrightarrow>
            date_add (ds ! i) 1 = Inr (ds ! Suc i) \<and> date_lt (ds ! i) (ds ! Suc i))"
  using assms(1,2)
proof (cases rule: date_range_cases[where inc = inclusive])
  case (1 e)
  with assms(3) show ?thesis by simp
next
  case (2 s e)
  let ?n = "toordinal e - toordinal s + (if inclusive then 1 else 0)"
  from date_range_dates[OF 2, of inclusive] assms(3) have
    v: "list_all valid_date ds" and
    m: "map toordinal ds = map (\<lambda>k. toordinal s + k) (py_range ?n)" by auto
  have len: "length ds = nat ?n"
    using arg_cong[OF m, of length] by (simp add: py_range_length)
  have nth: "toordinal (ds ! i) = toordinal s + int i" if "i < length ds" for i
  proof -
    have "toordinal (ds ! i) = map toordinal ds ! i" using that by simp
    also have "\<dots> = toordinal s + py_range ?n ! i"
      unfolding m using that len by (simp add: py_range_length)
    finally show ?thesis using that len by (simp add: py_range_nth)
  qed
  have "distinct (map (\<lambda>k. toordinal s + k) (py_range ?n))"
    by (simp add: distinct_map py_range_def inj_on_def)
  then have "distinct (map toordinal ds)" by (simp only: m)
  then have dist: "distinct ds" by (simp add: distinct_map)
  have step: "date_add (ds ! i) 1 = Inr (ds ! Suc i) \<and> date_lt (ds ! i) (ds ! Suc i)"
    if "Suc i < length ds" for i
  proof -
    from that have i: "i < length ds" by simp
    have va: "valid_date (ds ! i)" and vb: "valid_date (ds ! Suc i)"
      using v that i by (simp_all add: list_all_length)
    have o: "toordinal (ds ! Suc i) = toordinal (ds ! i) + 1"
      using nth[OF that] nth[OF i] by simp
    have "date_add (ds ! i) 1 = fromordinal (toordinal (ds ! Suc i))"
      using toordinal_range[OF vb] by (simp add: date_add_def Let_def o)
    also have "\<dots> = Inr (ds ! Suc i)" by (rule fromordinal_toordinal[OF vb])
    finally have "date_add (ds ! i) 1 = Inr (ds ! Suc i)" .
    moreover have "date_lt (ds ! i) (ds ! Suc i)"
      by (rule toordinal_less_imp_date_lt[OF va vb]) (simp add: o)
    ultimately show ?thesis by simp
  qed
  from dist step show ?thesis by simp
qed

theorem date_range_one_day_steps_witness:
  "valid_spec (StrSpec ''2020-02-27'') \<and> valid_spec (DateSpec (Date 2020 3 1)) \<and>
   date_range (StrSpec ''2020-02-27'') (DateSpec (Date 2020 3 1)) True =
     ([Date 2020 2 27, Date 2020 2 28, Date 2020 2 29, Date 2020 3 1], None) \<and>
   distinct [Date 2020 2 27, Date 2020 2 28, Date 2020 2 29, Date 2020 3 1] \<and>
   date_add (Date 2020 2 28) 1 = Inr (Date 2020 2 29) \<and>
   date_lt (Date 2020 2 28) (Date 2020 2 29) \<and>
   date_add (Date 2020 2 29) 1 = Inr (Date 2020 3 1) \<and>
   date_lt (Date 2020 2 29) (Date 2020 3 1)"
proof -
  let ?ds = "[Date 2020 2 27, Date 2020 2 28, Date 2020 2 29, Date 2020 3 1]"
  have h1: "valid_spec (StrSpec ''2020-02-27'')" by code_simp
  have h2: "valid_spec (DateSpec (Date 2020 3 1))" by code_simp
  have h3: "date_range (StrSpec ''2020-02-27'') (DateSpec (Date 2020 3 1)) True = (?ds, None)"
    by code_simp
  note c = date_range_one_day_steps[OF h1 h2 h3]
  from c have d: "distinct ?ds" by (rule conjunct1)
  from c have "Suc 1 < length ?ds \<longrightarrow>
      date_add (?ds ! 1) 1 = Inr (?ds ! Suc 1) \<and> date_lt (?ds ! 1) (?ds ! Suc 1)" by blast
  then have s1: "date_add (Date 2020 2 28) 1 = Inr (Date 2020 2 29)"
      "date_lt (Date 2020 2 28) (Date 2020 2 29)" by simp_all
  from c have "Suc 2 < length ?ds \<longrightarrow>
      date_add (?ds ! 2) 1 = Inr (?ds ! Suc 2) \<and> date_lt (?ds ! 2) (?ds ! Suc 2)" by blast
  then have s2: "date_add (Date 2020 2 29) 1 = Inr (Date 2020 3 1)"
      "date_lt (Date 2020 2 29) (Date 2020 3 1)" by simp_all
  from h1 h2 h3 d s1 s2 show ?thesis by blast
qed

text \<open>
  Claim C2. For a start that is not after the end, the inclusive range ends normally
  and yields \<^verbatim>\<open>(end - start).days + 1\<close> dates; when start and end are the same
  day it yields that day alone.
\<close>

theorem date_range_inclusive_length:
  assumes "valid_spec start_date" "valid_spec end_date"
    and "to_date start_date = Inr s" "to_date end_date = Inr e"
    and "date_le s e"
  shows "\<exists>ds n. date_range start_date end_date True = (ds, None) \<and>
           date_sub e s = Inr n \<and> int (length ds) = n + 1 \<and> (s = e \<longrightarrow> ds = [s])"
proof -
  have vs: "valid_date s" and ve: "valid_date e"
    using assms by (auto dest: to_date_valid)
  let ?n = "toordinal e - toordinal s"
  have le: "0 \<le> ?n" using date_le_toordinal[OF vs ve assms(5)] by simp
  have sub: "date_sub e s = Inr ?n"
    unfolding date_sub_def using toordinal_range[OF vs] toordinal_range[OF ve]
    by (intro timedelta_ok) simp_all
  from date_range_dates[OF assms(3,4) vs ve, of True] obtain ds where
    ds: "date_range start_date end_date True = (ds, None)" "list_all valid_date ds"
        "map toordinal ds = map (\<lambda>k. toordinal s + k) (py_range (?n + 1))" by auto
  have len: "length ds = nat (?n + 1)"
    using arg_cong[OF ds(3), of length] by (simp add: py_range_length)
  have one: "ds = [s]" if "s = e"
  proof -
    from that len obtain d where d: "ds = [d]" by (cases ds) auto
    with ds(2,3) that have "valid_date d" "toordinal d = toordinal s"
      by (simp_all add: py_range_def)
    then have "d = s" using vs by (intro toordinal_inj)
    with d show ?thesis by simp
  qed
  from ds(1) sub len le one show ?thesis by auto
qed

theorem date_range_inclusive_length_witness:
  "valid_spec (StrSpec ''2020-01-01'') \<and> valid_spec (DateSpec (Date 2020 1 3)) \<and>
   to_date (StrSpec ''2020-01-01'') = Inr (Date 2020 1 1) \<and>
   to_date (DateSpec (Date 2020 1 3)) = Inr (Date 2020 1 3) \<and>
   date_le (Date 2020 1 1) (Date 2020 1 3) \<and>
   (\<exists>ds n. date_range (StrSpec ''2020-01-01'') (DateSpec (Date 2020 1 3)) True = (ds, None) \<and>
      date_sub (Date 2020 1 3) (Date 2020 1 1) = Inr n \<and> int (length ds) = n + 1 \<and>
      (Date 2020 1 1 = Date 2020 1 3 \<longrightarrow> ds = [Date 2020 1 1]))"
proof -
  have h1: "valid_spec (StrSpec ''2020-01-01'')" by code_simp
  have h2: "valid_spec (DateSpec (Date 2020 1 3))" by code_simp
  have h3: "to_date (StrSpec ''2020-01-01'') = Inr (Date 2020 1 1)" by code_simp
  have h4: "to_date (DateSpec (Date 2020 1 3)) = Inr (Date 2020 1 3)" by code_simp
  have h5: "date_le (Date 2020 1 1) (Date 2020 1 3)" by code_simp
  from date_range_inclusive_length[OF h1 h2 h3 h4 h5] h1 h2 h3 h4 h5 show ?thesis by blast
qed

text \<open>
  Claim C3. For a start that is not after the end, the exclusive range ends normally
  and yields \<^verbatim>\<open>(end - start).days\<close> dates; when start and end are the same day
  it yields nothing.
\<close>

theorem date_range_exclusive_length:
  assumes "valid_spec start_date" "valid_spec end_date"
    and "to_date start_date = Inr s" "to_date end_date = Inr e"
    and "date_le s e"
  shows "\<exists>ds n. date_range start_date end_date False = (ds, None) \<and>
           date_sub e s = Inr n \<and> int (length ds) = n \<and> (s = e \<longrightarrow> ds = [])"
proof -
  have vs: "valid_date s" and ve: "valid_date e"
    using assms by (auto dest: to_date_valid)
  let ?n = "toordinal e - toordinal s"
  have le: "0 \<le> ?n" using date_le_toordinal[OF vs ve assms(5)] by simp
  have sub: "date_sub e s = Inr ?n"
    unfolding date_sub_def using toordinal_range[OF vs] toordinal_range[OF ve]
    by (intro timedelta_ok) simp_all
  from date_range_dates[OF assms(3,4) vs ve, of False] obtain ds where
    ds: "date_range start_date end_date False = (ds, None)"
        "map toordinal ds = map (\<lambda>k. toordinal s + k) (py_range ?n)" by auto
  have len: "length ds = nat ?n"
    using arg_cong[OF ds(2), of length] by (simp add: py_range_length)
  from ds(1) sub len le show ?thesis by auto
qed

theorem date_range_exclusive_length_witness:
  "valid_spec (DateSpec (Date 2019 12 30)) \<and> valid_spec (StrSpec ''2020-01-02'') \<and>
   to_date (DateSpec (Date 2019 12 30)) = Inr (Date 2019 12 30) \<and>
   to_date (StrSpec ''2020-01-02'') = Inr (Date 2020 1 2) \<and>
   date_le (Date 2019 12 30) (Date 2020 1 2) \<and>
   (\<exists>ds n. date_range (DateSpec (Date 2019 12 30)) (StrSpec ''2020-01-02'') False = (ds, None) \<and>
      date_sub (Date 2020 1 2) (Date 2019 12 30) = Inr n \<and> int (length ds) = n \<and>
      (Date 2019 12 30 = Date 2020 1 2 \<longrightarrow> ds = []))"
proof -
  have h1: "valid_spec (DateSpec (Date 2019 12 30))" by code_simp
  have h2: "valid_spec (StrSpec ''2020-01-02'')" by code_simp
  have h3: "to_date (DateSpec (Date 2019 12 30)) = Inr (Date 2019 12 30)" by code_simp
  have h4: "to_date (StrSpec ''2020-01-02'') = Inr (Date 2020 1 2)" by code_simp
  have h5: "date_le (Date 2019 12 30) (Date 2020 1 2)" by code_simp
  from date_range_exclusive_length[OF h1 h2 h3 h4 h5] h1 h2 h3 h4 h5 show ?thesis by blast
qed

text \<open>
  Claim C4. When the end is strictly before the start, \<open>date_range\<close> yields nothing
  and ends normally, without an error, in the inclusive and in the exclusive mode.
\<close>

theorem date_range_end_before_start:
  assumes "valid_spec start_date" "valid_spec end_date"
    and "to_date start_date = Inr s" "to_date end_date = Inr e"
    and "date_lt e s"
  shows "date_range start_date end_date inclusive = ([], None)"
proof -
  have vs: "valid_date s" and ve: "valid_date e"
    using assms by (auto dest: to_date_valid)
  have lt: "toordinal e < toordinal s" by (rule toordinal_mono[OF ve vs assms(5)])
  from date_range_dates[OF assms(3,4) vs ve, of inclusive] obtain ds where
    ds: "date_range start_date end_date inclusive = (ds, None)"
        "map toordinal ds = map (\<lambda>k. toordinal s + k)
           (py_range (toordinal e - toordinal s + (if inclusive then 1 else 0)))" by auto
  have "length ds = 0"
    using arg_cong[OF ds(2), of length] lt by (simp add: py_range_length)
  with ds(1) show ?thesis by simp
qed

theorem date_range_end_before_start_witness:
  "valid_spec (StrSpec ''2020-03-01'') \<and> valid_spec (DateSpec (Date 2020 2 29)) \<and>
   to_date (StrSpec ''2020-03-01'') = Inr (Date 2020 3 1) \<and>
   to_date (DateSpec (Date 2020 2 29)) = Inr (Date 2020 2 29) \<and>
   date_lt (Date 2020 2 29) (Date 2020 3 1) \<and>
   date_range (StrSpec ''2020-03-01'') (DateSpec (Date 2020 2 29)) True = ([], None) \<and>
   date_range (StrSpec ''2020-03-01'') (DateSpec (Date 2020 2 29)) False = ([], None)"
proof -
  have h1: "valid_spec (StrSpec ''2020-03-01'')" by code_simp
  have h2: "valid_spec (DateSpec (Date 2020 2 29))" by code_simp
  have h3: "to_date (StrSpec ''2020-03-01'') = Inr (Date 2020 3 1)" by code_simp
  have h4: "to_date (DateSpec (Date 2020 2 29)) = Inr (Date 2020 2 29)" by code_simp
  have h5: "date_lt (Date 2020 2 29) (Date 2020 3 1)" by code_simp
  from date_range_end_before_start[OF h1 h2 h3 h4 h5, of True]
    date_range_end_before_start[OF h1 h2 h3 h4 h5, of False] h1 h2 h3 h4 h5
  show ?thesis by blast
qed

text \<open>
  Claim C8. A string and the date object for the date that it denotes are
  interchangeable as arguments of \<open>date_range\<close>: whichever form is passed for the
  start and for the end, the generator yields the same dates and stops the same way.
\<close>

theorem date_range_string_or_date:
  assumes "denotes a da" "denotes b db"
  shows "date_range (StrSpec a) (StrSpec b) inclusive
           = date_range (DateSpec da) (DateSpec db) inclusive
       \<and> date_range (StrSpec a) (DateSpec db) inclusive
           = date_range (DateSpec da) (DateSpec db) inclusive
       \<and> date_range (DateSpec da) (StrSpec b) inclusive
           = date_range (DateSpec da) (DateSpec db) inclusive"
  using strptime_complete[OF assms(1)] strptime_complete[OF assms(2)]
  by (simp add: date_range_def to_date_def str_to_datetime_date_def)

theorem date_range_string_or_date_witness:
  "denotes ''2020-01-01'' (Date 2020 1 1) \<and>
   denotes ''2020-01-03'' (Date 2020 1 3) \<and>
   date_range (StrSpec ''2020-01-01'') (StrSpec ''2020-01-03'') True
     = date_range (DateSpec (Date 2020 1 1)) (DateSpec (Date 2020 1 3)) True \<and>
   date_range (StrSpec ''2020-01-01'') (DateSpec (Date 2020 1 3)) True
     = date_range (DateSpec (Date 2020 1 1)) (DateSpec (Date 2020 1 3)) True \<and>
   date_range (DateSpec (Date 2020 1 1)) (StrSpec ''2020-01-03'') True
     = date_range (DateSpec (Date 2020 1 1)) (DateSpec (Date 2020 1 3)) True"
proof -
  have h1: "denotes ''2020-01-01'' (Date 2020 1 1)"
    unfolding denotes_def
    apply (rule exI[of _ "''2020''"])
    apply (rule exI[of _ "''01''"])
    apply (rule exI[of _ "''01''"])
    apply (simp add: month_text_def day_text_def is_digit_def in_range_def decimal_def
        strip_def digit_val_def valid_date_def check_date_fields_def MINYEAR_def MAXYEAR_def
        days_in_month_def table_nth)
    done
  have h2: "denotes ''2020-01-03'' (Date 2020 1 3)"
    unfolding denotes_def
    apply (rule exI[of _ "''2020''"])
    apply (rule exI[of _ "''01''"])
    apply (rule exI[of _ "''03''"])
    apply (simp add: month_text_def day_text_def is_digit_def in_range_def decimal_def
        strip_def digit_val_def valid_date_def check_date_fields_def MINYEAR_def MAXYEAR_def
        days_in_month_def table_nth)
    done
  from date_range_string_or_date[OF h1 h2, of True] h1 h2 show ?thesis by blast
qed

section \<open>The date normalizer\<close>




section \<open>The gap-filling value mapper\<close>

text \<open>
  Claim C5. For every date of the range that \<open>value_or_null\<close> gets to: when the
  lookup for that date returns exactly one record, the value yielded is the
  \<open>value_attr\<close> entry of that record; when the lookup returns no record, the value
  yielded is the string \<^verbatim>\<open>"null"\<close>, which is neither a number nor
  \<^verbatim>\<open>None\<close>.
\<close>

theorem value_or_null_value_or_sentinel:
  assumes "date_range start_date end_date True = (ds, t0)"
    and "value_or_null start_date end_date queryset date_attr value_attr = (vs, t)"
    and "i < length vs"
  shows "i < length ds
       \<and> (\<forall>r v. queryset (build_query date_attr (ds ! i)) = Inr [r] \<and> r value_attr = Some v
              \<longrightarrow> vs ! i = v)
       \<and> (queryset (build_query date_attr (ds ! i)) = Inr [] \<longrightarrow>
              vs ! i = Str ''null'' \<and> vs ! i \<noteq> Num 0 \<and> vs ! i \<noteq> NoneVal)"
proof -
  note p = value_or_null_prefix[OF assms(1,2)]
  from p assms(3) have i: "i < length ds" by simp
  from p assms(3) have
    b: "value_or_null_body queryset date_attr value_attr (ds ! i) = Inr (vs ! i)" by blast
  have one: "vs ! i = v"
    if "queryset (build_query date_attr (ds ! i)) = Inr [r]" "r value_attr = Some v" for r v
    using body_one[where qs = queryset and da = date_attr and d = "ds ! i" and va = value_attr
        and r = r and v = v] that b by simp
  have none: "vs ! i = Str ''null''"
    if "queryset (build_query date_attr (ds ! i)) = Inr []"
    using body_none[where qs = queryset and da = date_attr and d = "ds ! i" and va = value_attr]
      that b by simp
  from i one none show ?thesis by auto
qed

theorem value_or_null_value_or_sentinel_witness:
  "date_range (StrSpec ''2020-01-01'') (StrSpec ''2020-01-03'') True =
     ([Date 2020 1 1, Date 2020 1 2, Date 2020 1 3], None) \<and>
   value_or_null (StrSpec ''2020-01-01'') (StrSpec ''2020-01-03'')
     (\<lambda>q. if q ''date__day'' = Some 2 then Inr [[''value'' \<mapsto> Num (7::int)]] else Inr [])
     ''date'' ''value'' = ([Str ''null'', Num 7, Str ''null''], None) \<and>
   [Str ''null'', Num (7::int), Str ''null''] ! 1 = Num 7 \<and>
   [Str ''null'', Num (7::int), Str ''null''] ! 2 = Str ''null''"
proof -
  let ?qs = "\<lambda>q::string \<rightharpoonup> int.
     if q ''date__day'' = Some 2 then Inr [[''value'' \<mapsto> Num (7::int)]] else Inr []"
  let ?ds = "[Date 2020 1 1, Date 2020 1 2, Date 2020 1 3]"
  let ?vs = "[Str ''null'', Num (7::int), Str ''null'']"
  have h1: "date_range (StrSpec ''2020-01-01'') (StrSpec ''2020-01-03'') True = (?ds, None)"
    by code_simp
  have h2: "value_or_null (StrSpec ''2020-01-01'') (StrSpec ''2020-01-03'') ?qs
     ''date'' ''value'' = (?vs, None)"
    by code_simp
  have l1: "1 < length ?vs" and l2: "2 < length ?vs" by simp_all
  note t1 = value_or_null_value_or_sentinel[OF h1 h2 l1]
  note t2 = value_or_null_value_or_sentinel[OF h1 h2 l2]
  have c1: "?vs ! 1 = Num 7"
    by (rule t1[THEN conjunct2, THEN conjunct1, rule_format,
          of "[''value'' \<mapsto> Num 7]" "Num 7"])
       (simp add: build_query_def)
  have c2: "?vs ! 2 = Str ''null''"
    by (rule t2[THEN conjunct2, THEN conjunct2, rule_format, THEN conjunct1])
       (simp add: build_query_def)
  from h1 h2 c1 c2 show ?thesis by blast
qed





text \<open>
  Claim C10. For a date whose lookup returns two or more records, the value yielded
  is the string \<^verbatim>\<open>"null"\<close>, as when there is no record: no error is raised and
  none of the records is picked.
\<close>

theorem value_or_null_ambiguous_is_null:
  assumes "date_range start_date end_date True = (ds, t0)"
    and "value_or_null start_date end_date queryset date_attr value_attr = (vs, t)"
    and "i < length vs"
    and "queryset (build_query date_attr (ds ! i)) = Inr items"
    and "2 \<le> length items"
  shows "vs ! i = Str ''null''
       \<and> value_or_null_body queryset date_attr value_attr (ds ! i) = Inr (Str ''null'')"
proof -
  note p = value_or_null_prefix[OF assms(1,2)]
  from p assms(3) have
    "value_or_null_body queryset date_attr value_attr (ds ! i) = Inr (vs ! i)" by blast
  with body_many[where qs = queryset and da = date_attr and d = "ds ! i" and va = value_attr
      and items = items] assms(4,5) show ?thesis by simp
qed

theorem value_or_null_ambiguous_is_null_witness:
  "date_range (StrSpec ''2020-01-01'') (StrSpec ''2020-01-03'') True =
     ([Date 2020 1 1, Date 2020 1 2, Date 2020 1 3], None) \<and>
   value_or_null (StrSpec ''2020-01-01'') (StrSpec ''2020-01-03'')
     (\<lambda>q. if q ''date__day'' = Some 2
           then Inr [[''value'' \<mapsto> Num (7::int)], [''value'' \<mapsto> Num 8]]
           else Inr [[''value'' \<mapsto> Num 1]])
     ''date'' ''value'' = ([Num 1, Str ''null'', Num 1], None) \<and>
   [Num (1::int), Str ''null'', Num 1] ! 1 = Str ''null''"
proof -
  let ?qs = "\<lambda>q::string \<rightharpoonup> int. if q ''date__day'' = Some 2
           then Inr [[''value'' \<mapsto> Num (7::int)], [''value'' \<mapsto> Num 8]]
           else Inr [[''value'' \<mapsto> Num 1]]"
  let ?ds = "[Date 2020 1 1, Date 2020 1 2, Date 2020 1 3]"
  let ?vs = "[Num (1::int), Str ''null'', Num 1]"
  have h1: "date_range (StrSpec ''2020-01-01'') (StrSpec ''2020-01-03'') True = (?ds, None)"
    by code_simp
  have h2: "value_or_null (StrSpec ''2020-01-01'') (StrSpec ''2020-01-03'') ?qs
     ''date'' ''value'' = (?vs, None)"
    by code_simp
  have h3: "1 < length ?vs" by simp
  have h4: "?qs (build_query ''date'' (?ds ! 1)) =
      Inr [[''value'' \<mapsto> Num (7::int)], [''value'' \<mapsto> Num 8]]"
    by (simp add: build_query_def)
  have h5: "2 \<le> length [[''value'' \<mapsto> Num (7::int)], [''value'' \<mapsto> Num 8]]" by simp
  have c: "?vs ! 1 = Str ''null''"
    by (rule value_or_null_ambiguous_is_null[OF h1 h2 h3 h4 h5, THEN conjunct1])
  from h1 h2 c show ?thesis by blast
qed

end
